theory Spec2Isabelle
  imports Main "HOL-Library.Word"
begin

unbundle bit_operations_syntax

section \<open>Go values used by the decoder\<close>

text \<open>
  A Go \<^verbatim>\<open>[]byte\<close> is a list of 8-bit words and a Go \<^verbatim>\<open>string\<close> is the byte sequence it
  holds. The only buffer the decoder ever reads is \<^verbatim>\<open>m.raw_msg\<close>, which
  \<^verbatim>\<open>DNSMessage.FromBytes\<close> allocates with \<^verbatim>\<open>make([]byte, len(bytes))\<close>, so its capacity is
  its length and slice bounds are checked against the length. Go's \<^verbatim>\<open>int\<close> is modelled
  by \<open>int\<close>: every offset the decoder computes is at most the buffer length plus 65535,
  far below the 63 bits of a Go \<^verbatim>\<open>int\<close>, so no addition wraps.

  An index or slice expression out of range panics in Go. The decoder has no
  \<^verbatim>\<open>recover\<close> and returns no error value, so a panic ends the run; it is the \<open>Inl\<close>
  branch of every result below. A call whose recursion never ends is \<open>None\<close>: it returns
  nothing (the Go runtime ends such a run when the stack reaches its limit).
\<close>

type_synonym byte = "8 word"
type_synonym gostring = "byte list"

datatype panic = IndexOutOfRange | SliceBoundsOutOfRange

type_synonym 'a outcome = "(panic + 'a) option"

definition obind :: "'a outcome \<Rightarrow> ('a \<Rightarrow> 'b outcome) \<Rightarrow> 'b outcome" where
  "obind m f = (case m of None \<Rightarrow> None | Some (Inl p) \<Rightarrow> Some (Inl p) | Some (Inr x) \<Rightarrow> f x)"

text \<open>\<^verbatim>\<open>b[i]\<close>\<close>

definition index_byte :: "byte list \<Rightarrow> int \<Rightarrow> panic + byte" where
  "index_byte b i =
     (if 0 \<le> i \<and> i < int (length b) then Inr (b ! nat i) else Inl IndexOutOfRange)"

text \<open>\<^verbatim>\<open>b[i:]\<close>\<close>

definition slice_from :: "byte list \<Rightarrow> int \<Rightarrow> panic + byte list" where
  "slice_from b i =
     (if 0 \<le> i \<and> i \<le> int (length b) then Inr (drop (nat i) b) else Inl SliceBoundsOutOfRange)"

text \<open>\<^verbatim>\<open>b[lo:hi]\<close>\<close>

definition slice :: "byte list \<Rightarrow> int \<Rightarrow> int \<Rightarrow> panic + byte list" where
  "slice b lo hi =
     (if 0 \<le> lo \<and> lo \<le> hi \<and> hi \<le> int (length b)
      then Inr (take (nat (hi - lo)) (drop (nat lo) b)) else Inl SliceBoundsOutOfRange)"

text \<open>
  \<^verbatim>\<open>binary.BigEndian.Uint16\<close> and \<^verbatim>\<open>Uint32\<close> of the standard library: a bounds check on
  the last byte, then the bytes combined most significant first.
\<close>

definition Uint16 :: "byte list \<Rightarrow> panic + 16 word" where
  "Uint16 s =
     (if length s < 2 then Inl IndexOutOfRange
      else Inr (ucast (s ! 1) OR push_bit 8 (ucast (s ! 0))))"

definition Uint32 :: "byte list \<Rightarrow> panic + 32 word" where
  "Uint32 s =
     (if length s < 4 then Inl IndexOutOfRange
      else Inr (ucast (s ! 3) OR push_bit 8 (ucast (s ! 2)) OR push_bit 16 (ucast (s ! 1))
                OR push_bit 24 (ucast (s ! 0))))"

text \<open>\<^verbatim>\<open>binary.BigEndian.Uint16(b[i:])\<close> and \<^verbatim>\<open>binary.BigEndian.Uint32(b[i:])\<close>\<close>

definition read_u16 :: "byte list \<Rightarrow> int \<Rightarrow> panic + 16 word" where
  "read_u16 b i = (case slice_from b i of Inl p \<Rightarrow> Inl p | Inr s \<Rightarrow> Uint16 s)"

definition read_u32 :: "byte list \<Rightarrow> int \<Rightarrow> panic + 32 word" where
  "read_u32 b i = (case slice_from b i of Inl p \<Rightarrow> Inl p | Inr s \<Rightarrow> Uint32 s)"

text \<open>\<^verbatim>\<open>strings.Join\<close>\<close>

fun Join :: "gostring list \<Rightarrow> gostring \<Rightarrow> gostring" where
  "Join [] sep = []"
| "Join [x] sep = x"
| "Join (x # y # ys) sep = x @ sep @ Join (y # ys) sep"

text \<open>The separators \<^verbatim>\<open>"."\<close> and \<^verbatim>\<open>" "\<close>.\<close>

definition dot :: gostring where
  "dot = [0x2E]"

definition space :: gostring where
  "space = [0x20]"

section \<open>The label resolver\<close>

text \<open>
  \<^verbatim>\<open>parse_labels\<close> is a \<^verbatim>\<open>for\<close> loop over the local \<^verbatim>\<open>results\<close> that calls itself at a
  compression pointer. \<open>parse_labels_loop\<close> is the loop, with \<^verbatim>\<open>results\<close> as an argument;
  the recursive call starts it again with no results. Nothing bounds the recursion in the
  source, so the function is partial.
\<close>

partial_function (option) parse_labels_loop ::
  "int \<Rightarrow> int \<Rightarrow> byte list \<Rightarrow> bool \<Rightarrow> gostring list \<Rightarrow> (panic + int \<times> gostring list) option"
  where
  "parse_labels_loop i max_i b allow_ptr results =
    (if max_i > 0 \<and> i \<ge> max_i then Some (Inr (max_i + 1, results))
     else case index_byte b i of Inl p \<Rightarrow> Some (Inl p) | Inr c \<Rightarrow>
       if allow_ptr \<and> (c AND 0xC0) = 0xC0 then
         (case read_u16 b i of Inl p \<Rightarrow> Some (Inl p) | Inr w \<Rightarrow>
            Option.bind (parse_labels_loop (uint (w AND 0x3FFF)) max_i b allow_ptr [])
              (\<lambda>r. case r of Inl p \<Rightarrow> Some (Inl p)
                    | Inr (_, new_results) \<Rightarrow> Some (Inr (i + 2, results @ new_results))))
       else
         (let l = uint c in
          if l = 0 then Some (Inr (i + 1, results))
          else case slice b (i + 1) (i + 1 + l) of Inl p \<Rightarrow> Some (Inl p) | Inr s \<Rightarrow>
            parse_labels_loop (i + 1 + l) max_i b allow_ptr (results @ [s])))"

declare parse_labels_loop.simps [code]

definition parse_labels ::
  "int \<Rightarrow> int \<Rightarrow> byte list \<Rightarrow> bool \<Rightarrow> (int \<times> gostring list) outcome" where
  "parse_labels i max_i b allow_ptr = parse_labels_loop i max_i b allow_ptr []"

text \<open>
  The reading of length-prefixed strings as the specification words it for TXT payloads:
  raw length-prefixed strings only, every length byte a literal length, a zero length
  ending the sequence, a positive bound capping the reading. It has no pointer case, and
  each round moves forward in the buffer, so it is total.
\<close>

function spec_raw_strings ::
  "int \<Rightarrow> int \<Rightarrow> byte list \<Rightarrow> gostring list \<Rightarrow> panic + int \<times> gostring list" where
  "spec_raw_strings i max_i b results =
    (if max_i > 0 \<and> i \<ge> max_i then Inr (max_i + 1, results)
     else if \<not> (0 \<le> i \<and> i < int (length b)) then Inl IndexOutOfRange
     else if b ! nat i = 0 then Inr (i + 1, results)
     else if int (length b) < i + 1 + uint (b ! nat i) then Inl SliceBoundsOutOfRange
     else spec_raw_strings (i + 1 + uint (b ! nat i)) max_i b
            (results @ [take (unat (b ! nat i)) (drop (nat i + 1) b)]))"
  by pat_completeness auto
termination
proof (relation "measure (\<lambda>(i, max_i, b, results). nat (int (length b) - i))")
  show "wf (measure (\<lambda>(i, max_i, b, results). nat (int (length b) - i)))"
    by simp
next
  fix i max_i :: int and b :: "byte list" and results :: "gostring list"
  assume "\<not> \<not> (0 \<le> i \<and> i < int (length b))"
  then show "((i + 1 + uint (b ! nat i), max_i, b,
               results @ [take (unat (b ! nat i)) (drop (nat i + 1) b)]),
              (i, max_i, b, results))
             \<in> measure (\<lambda>(i, max_i, b, results). nat (int (length b) - i))"
    by (simp add: less_le_trans [where y = 0])
qed

declare spec_raw_strings.simps [simp del]

text \<open>
  The \<^verbatim>\<open>for\<close> loop of \<^verbatim>\<open>parse_labels\<close> up to the point where it calls itself: it ends with
  what the loop returns, or at a compression pointer with the offset of the pointer, its
  target and the results so far. The loop only moves forward, so this part is total.
\<close>

datatype scan_end =
    ScanDone "panic + int \<times> gostring list"
  | ScanPointer int int "gostring list"

function scan_labels :: "int \<Rightarrow> int \<Rightarrow> byte list \<Rightarrow> bool \<Rightarrow> gostring list \<Rightarrow> scan_end" where
  "scan_labels i max_i b allow_ptr results =
    (if max_i > 0 \<and> i \<ge> max_i then ScanDone (Inr (max_i + 1, results))
     else case index_byte b i of Inl p \<Rightarrow> ScanDone (Inl p) | Inr c \<Rightarrow>
       if allow_ptr \<and> (c AND 0xC0) = 0xC0 then
         (case read_u16 b i of Inl p \<Rightarrow> ScanDone (Inl p)
          | Inr w \<Rightarrow> ScanPointer i (uint (w AND 0x3FFF)) results)
       else
         (let l = uint c in
          if l = 0 then ScanDone (Inr (i + 1, results))
          else case slice b (i + 1) (i + 1 + l) of Inl p \<Rightarrow> ScanDone (Inl p) | Inr s \<Rightarrow>
            scan_labels (i + 1 + l) max_i b allow_ptr (results @ [s])))"
  by pat_completeness auto
termination
proof (relation "measure (\<lambda>(i, max_i, b, allow_ptr, results). nat (int (length b) - i))",
       goal_cases)
  case 1
  show ?case by simp
next
  case (2 i max_i b allow_ptr results c l s)
  then show ?case
    by (auto simp: index_byte_def slice_def less_le_trans [where y = 0] split: if_splits)
qed

declare scan_labels.simps [simp del]

text \<open>
  The resolver with the bound the specification asks for, a maximum number of pointer
  hops: \<open>n\<close> pointers may be followed, and \<open>None\<close> is the answer when one more is met. It
  serves to say for which inputs \<^verbatim>\<open>parse_labels\<close> returns.
\<close>

fun parse_labels_hops ::
  "nat \<Rightarrow> int \<Rightarrow> int \<Rightarrow> byte list \<Rightarrow> bool \<Rightarrow> gostring list \<Rightarrow> (panic + int \<times> gostring list) option"
  where
  "parse_labels_hops 0 i max_i b allow_ptr results =
     (case scan_labels i max_i b allow_ptr results of
        ScanDone r \<Rightarrow> Some r
      | ScanPointer p t rs \<Rightarrow> None)"
| "parse_labels_hops (Suc n) i max_i b allow_ptr results =
     (case scan_labels i max_i b allow_ptr results of
        ScanDone r \<Rightarrow> Some r
      | ScanPointer p t rs \<Rightarrow>
          Option.bind (parse_labels_hops n t max_i b allow_ptr [])
            (\<lambda>r. case r of Inl e \<Rightarrow> Some (Inl e)
                  | Inr (_, new_results) \<Rightarrow> Some (Inr (p + 2, rs @ new_results))))"

section \<open>Resource records\<close>

text \<open>The record types that \<^verbatim>\<open>DNSRR.FromBytes\<close> dispatches on.\<close>

definition A :: "16 word" where
  "A = 1"

definition PTR :: "16 word" where
  "PTR = 12"

definition TXT :: "16 word" where
  "TXT = 16"

definition AAAA :: "16 word" where
  "AAAA = 28"

definition SRV :: "16 word" where
  "SRV = 33"

record DNSRRHeader =
  Name :: gostring
  Type :: "16 word"
  Class :: "16 word"

text \<open>
  \<^verbatim>\<open>Payload interface{}\<close>: \<open>PayloadNil\<close> is the nil interface that a fresh record holds
  and that \<^verbatim>\<open>rr_print\<close> shows as \<^verbatim>\<open>UNK\<close> with the length of \<^verbatim>\<open>raw_payload\<close>.
\<close>

datatype payload =
    PayloadNil
  | DNSPayloadA "byte list"
  | DNSPayloadAAAA "byte list"
  | DNSPayloadPtr gostring
  | DNSPayloadTxt gostring
  | DNSPayloadSrv "16 word" "16 word" "16 word" gostring

record DNSRR =
  RRHeader :: DNSRRHeader
  TTL :: "32 word"
  Payload :: payload
  raw_payload :: "byte list"

text \<open>The zero values \<^verbatim>\<open>DNSRRHeader{}\<close> and \<^verbatim>\<open>DNSRR{}\<close>.\<close>

definition DNSRRHeader_zero :: DNSRRHeader where
  "DNSRRHeader_zero = \<lparr>Name = [], Type = 0, Class = 0\<rparr>"

definition DNSRR_zero :: DNSRR where
  "DNSRR_zero = \<lparr>RRHeader = DNSRRHeader_zero, TTL = 0, Payload = PayloadNil, raw_payload = []\<rparr>"

text \<open>
  The methods change their receiver; here the receiver is the first argument and the
  changed receiver is returned with the next offset.
\<close>

definition DNSRRHeader_FromBytes ::
  "DNSRRHeader \<Rightarrow> int \<Rightarrow> byte list \<Rightarrow> (int \<times> DNSRRHeader) outcome" where
  "DNSRRHeader_FromBytes h i b =
     obind (parse_labels i (- 1) b True) (\<lambda>(i1, l).
     obind (Some (read_u16 b i1)) (\<lambda>t.
     obind (Some (read_u16 b (i1 + 2))) (\<lambda>c.
     Some (Inr (i1 + 2 + 2, h\<lparr>Name := Join l dot, Type := t, Class := c\<rparr>)))))"

text \<open>\<^verbatim>\<open>net.IPv4\<close> of the standard library: the 16-byte form of an IPv4 address.\<close>

definition net_IPv4 :: "byte \<Rightarrow> byte \<Rightarrow> byte \<Rightarrow> byte \<Rightarrow> byte list" where
  "net_IPv4 a b c d = [0, 0, 0, 0, 0, 0, 0, 0, 0, 0, 0xFF, 0xFF, a, b, c, d]"

text \<open>
  The \<^verbatim>\<open>switch rr.Header.Type\<close> of \<^verbatim>\<open>DNSRR.FromBytes\<close>, with \<open>i\<close> the offset where the
  rdata begins. A type with no case leaves \<^verbatim>\<open>rr.Payload\<close> as it was.
\<close>

definition payload_switch :: "DNSRR \<Rightarrow> int \<Rightarrow> int \<Rightarrow> byte list \<Rightarrow> DNSRR outcome" where
  "payload_switch rr i rdlen b =
    (if Type (RRHeader rr) = A then
       obind (Some (index_byte b (i + 0))) (\<lambda>b0.
       obind (Some (index_byte b (i + 1))) (\<lambda>b1.
       obind (Some (index_byte b (i + 2))) (\<lambda>b2.
       obind (Some (index_byte b (i + 3))) (\<lambda>b3.
       Some (Inr (rr\<lparr>Payload := DNSPayloadA (net_IPv4 b0 b1 b2 b3)\<rparr>))))))
     else if Type (RRHeader rr) = PTR then
       obind (parse_labels i (i + rdlen) b True) (\<lambda>(_, l).
       Some (Inr (rr\<lparr>Payload := DNSPayloadPtr (Join l dot)\<rparr>)))
     else if Type (RRHeader rr) = TXT then
       obind (parse_labels i (i + rdlen) b False) (\<lambda>(_, l).
       Some (Inr (rr\<lparr>Payload := DNSPayloadTxt (Join l space)\<rparr>)))
     else if Type (RRHeader rr) = AAAA then
       obind (Some (slice b i (i + 16))) (\<lambda>ip.
       Some (Inr (rr\<lparr>Payload := DNSPayloadAAAA ip\<rparr>)))
     else if Type (RRHeader rr) = SRV then
       obind (parse_labels (i + 6) (i + rdlen) b True) (\<lambda>(_, l).
       obind (Some (read_u16 b i)) (\<lambda>priority.
       obind (Some (read_u16 b (i + 2))) (\<lambda>weight.
       obind (Some (read_u16 b (i + 4))) (\<lambda>port.
       Some (Inr (rr\<lparr>Payload := DNSPayloadSrv priority weight port (Join l space)\<rparr>))))))
     else Some (Inr rr))"

definition DNSRR_FromBytes :: "DNSRR \<Rightarrow> int \<Rightarrow> byte list \<Rightarrow> (int \<times> DNSRR) outcome" where
  "DNSRR_FromBytes rr i b =
     obind (DNSRRHeader_FromBytes (RRHeader rr) i b) (\<lambda>(i1, h).
     obind (Some (read_u32 b i1)) (\<lambda>ttl.
     obind (Some (read_u16 b (i1 + 4))) (\<lambda>w.
     let rdlen = uint w; i2 = i1 + 4 + 2 in
     obind (Some (slice b i2 (i2 + rdlen))) (\<lambda>raw.
     obind (payload_switch (rr\<lparr>RRHeader := h, TTL := ttl, raw_payload := raw\<rparr>) i2 rdlen b)
       (\<lambda>rr'.
     Some (Inr (i2 + rdlen, rr')))))))"

section \<open>Messages\<close>

record DNSMessageHeader =
  Identification :: "16 word"
  Flags :: "16 word"
  QuestionCount :: "16 word"
  AnswerCount :: "16 word"
  AuthorityCount :: "16 word"
  AdditionalCount :: "16 word"

text \<open>The list \<^verbatim>\<open>ptrs\<close> of the fields to fill, each as the assignment through its pointer.\<close>

definition ptrs :: "(16 word \<Rightarrow> DNSMessageHeader \<Rightarrow> DNSMessageHeader) list" where
  "ptrs = [\<lambda>v h. h\<lparr>Identification := v\<rparr>, \<lambda>v h. h\<lparr>Flags := v\<rparr>,
           \<lambda>v h. h\<lparr>QuestionCount := v\<rparr>, \<lambda>v h. h\<lparr>AnswerCount := v\<rparr>,
           \<lambda>v h. h\<lparr>AuthorityCount := v\<rparr>, \<lambda>v h. h\<lparr>AdditionalCount := v\<rparr>]"

fun header_loop ::
  "(16 word \<Rightarrow> DNSMessageHeader \<Rightarrow> DNSMessageHeader) list \<Rightarrow> DNSMessageHeader \<Rightarrow> int \<Rightarrow> byte list
   \<Rightarrow> panic + int \<times> DNSMessageHeader" where
  "header_loop [] h i b = Inr (i, h)"
| "header_loop (ptr # rest) h i b =
     (case read_u16 b i of Inl p \<Rightarrow> Inl p | Inr v \<Rightarrow> header_loop rest (ptr v h) (i + 2) b)"

definition DNSMessageHeader_FromBytes ::
  "DNSMessageHeader \<Rightarrow> int \<Rightarrow> byte list \<Rightarrow> panic + int \<times> DNSMessageHeader" where
  "DNSMessageHeader_FromBytes h i b = header_loop ptrs h i b"

record DNSMessage =
  MsgHeader :: DNSMessageHeader
  Question :: "DNSRRHeader list"
  Answer :: "DNSRR list"
  Authority :: "DNSRR list"
  Additional :: "DNSRR list"
  raw_msg :: "byte list"

definition DNSMessageHeader_zero :: DNSMessageHeader where
  "DNSMessageHeader_zero =
     \<lparr>Identification = 0, Flags = 0, QuestionCount = 0, AnswerCount = 0, AuthorityCount = 0,
      AdditionalCount = 0\<rparr>"

text \<open>The zero value \<^verbatim>\<open>DNSMessage{}\<close>, as in \<^verbatim>\<open>DNSMsgInfo {}\<close> of the message loop.\<close>

definition DNSMessage_zero :: DNSMessage where
  "DNSMessage_zero =
     \<lparr>MsgHeader = DNSMessageHeader_zero, Question = [], Answer = [], Authority = [],
      Additional = [], raw_msg = []\<rparr>"

text \<open>
  The four \<^verbatim>\<open>for j := uint16(0); j < count; j++\<close> loops; the first argument is the number
  of rounds left. Each round decodes into a fresh record and appends it to its section.
\<close>

fun question_loop :: "nat \<Rightarrow> DNSMessage \<Rightarrow> int \<Rightarrow> (int \<times> DNSMessage) outcome" where
  "question_loop 0 m i = Some (Inr (i, m))"
| "question_loop (Suc n) m i =
     obind (DNSRRHeader_FromBytes DNSRRHeader_zero i (raw_msg m)) (\<lambda>(i', h).
     question_loop n (m\<lparr>Question := Question m @ [h]\<rparr>) i')"

fun answer_loop :: "nat \<Rightarrow> DNSMessage \<Rightarrow> int \<Rightarrow> (int \<times> DNSMessage) outcome" where
  "answer_loop 0 m i = Some (Inr (i, m))"
| "answer_loop (Suc n) m i =
     obind (DNSRR_FromBytes DNSRR_zero i (raw_msg m)) (\<lambda>(i', rr).
     answer_loop n (m\<lparr>Answer := Answer m @ [rr]\<rparr>) i')"

fun authority_loop :: "nat \<Rightarrow> DNSMessage \<Rightarrow> int \<Rightarrow> (int \<times> DNSMessage) outcome" where
  "authority_loop 0 m i = Some (Inr (i, m))"
| "authority_loop (Suc n) m i =
     obind (DNSRR_FromBytes DNSRR_zero i (raw_msg m)) (\<lambda>(i', rr).
     authority_loop n (m\<lparr>Authority := Authority m @ [rr]\<rparr>) i')"

fun additional_loop :: "nat \<Rightarrow> DNSMessage \<Rightarrow> int \<Rightarrow> (int \<times> DNSMessage) outcome" where
  "additional_loop 0 m i = Some (Inr (i, m))"
| "additional_loop (Suc n) m i =
     obind (DNSRR_FromBytes DNSRR_zero i (raw_msg m)) (\<lambda>(i', rr).
     additional_loop n (m\<lparr>Additional := Additional m @ [rr]\<rparr>) i')"

text \<open>
  \<^verbatim>\<open>DNSMessage.FromBytes\<close>, returning the changed receiver. \<open>DNSMessage_decode\<close> is its
  body and also returns the local offset \<^verbatim>\<open>i\<close> as it stands at the end.
\<close>

definition DNSMessage_decode :: "DNSMessage \<Rightarrow> byte list \<Rightarrow> (int \<times> DNSMessage) outcome" where
  "DNSMessage_decode m bytes =
     (let m1 = m\<lparr>raw_msg := bytes\<rparr> in
      obind (Some (DNSMessageHeader_FromBytes (MsgHeader m1) 0 (raw_msg m1))) (\<lambda>(i, h).
      obind (question_loop (unat (QuestionCount h)) (m1\<lparr>MsgHeader := h\<rparr>) i) (\<lambda>(i, m2).
      obind (answer_loop (unat (AnswerCount (MsgHeader m2))) m2 i) (\<lambda>(i, m3).
      obind (authority_loop (unat (AuthorityCount (MsgHeader m3))) m3 i) (\<lambda>(i, m4).
      additional_loop (unat (AdditionalCount (MsgHeader m4))) m4 i)))))"

definition DNSMessage_FromBytes :: "DNSMessage \<Rightarrow> byte list \<Rightarrow> DNSMessage outcome" where
  "DNSMessage_FromBytes m bytes = obind (DNSMessage_decode m bytes) (\<lambda>(i, m'). Some (Inr m'))"


section \<open>The capture loop\<close>

text \<open>
  \<^verbatim>\<open>msg_loop\<close> of \<^verbatim>\<open>scan.go\<close>, which both address families run (the earlier per-family
  loops make the same test on \<^verbatim>\<open>cm.Dst\<close>). What the loop meets in one round is an input:
  the stop channel is closed, or \<^verbatim>\<open>ReadFromWrapper\<close> returns a timeout, another error, or
  a datagram \<^verbatim>\<open>b[:n]\<close> with its peer, interface index, source and destination. What it
  sends on \<^verbatim>\<open>dnsi_channel\<close> is the list of events. The addresses and their methods
  \<^verbatim>\<open>IsMulticast\<close> and \<^verbatim>\<open>Equal\<close>, \<^verbatim>\<open>net.InterfaceByIndex\<close>, \<^verbatim>\<open>JoinGroup\<close> and the result
  of \<^verbatim>\<open>SetControlMessageWrapper\<close> belong to the Go libraries and are parameters.
\<close>

datatype ('addr, 'ip) read_result =
    ReadTimeout
  | ReadFailed
  | ReadOk "byte list" 'addr int 'ip 'ip

datatype ('addr, 'ip) loop_input =
    StopClosed
  | Received "('addr, 'ip) read_result"

record ('iface, 'addr, 'ip) DNSMsgInfo =
  iface :: 'iface
  peer :: 'addr
  src :: 'ip
  dst :: 'ip
  msg :: DNSMessage

text \<open>
  How the loop ends: it returns, \<^verbatim>\<open>log.Fatal\<close> ends the process, the decoder panics, the
  decoder never returns, or the loop waits for more input.
\<close>

datatype loop_end = Returned | Fatal | Panicked panic | DecodeUnending | Waiting

fun msg_loop_rounds ::
  "('ip \<Rightarrow> bool) \<Rightarrow> ('ip \<Rightarrow> 'ip \<Rightarrow> bool) \<Rightarrow> (int \<Rightarrow> 'iface option) \<Rightarrow> 'ip
   \<Rightarrow> ('addr, 'ip) loop_input list \<Rightarrow> ('iface, 'addr, 'ip) DNSMsgInfo list \<times> loop_end" where
  "msg_loop_rounds IsMulticast Equal InterfaceByIndex mdns_ip [] = ([], Waiting)"
| "msg_loop_rounds IsMulticast Equal InterfaceByIndex mdns_ip (StopClosed # rest) = ([], Returned)"
| "msg_loop_rounds IsMulticast Equal InterfaceByIndex mdns_ip (Received ReadTimeout # rest) =
     msg_loop_rounds IsMulticast Equal InterfaceByIndex mdns_ip rest"
| "msg_loop_rounds IsMulticast Equal InterfaceByIndex mdns_ip (Received ReadFailed # rest) =
     ([], Fatal)"
| "msg_loop_rounds IsMulticast Equal InterfaceByIndex mdns_ip
     (Received (ReadOk data p idx s d) # rest) =
     (if \<not> IsMulticast d \<or> \<not> Equal d mdns_ip then
        msg_loop_rounds IsMulticast Equal InterfaceByIndex mdns_ip rest
      else case InterfaceByIndex idx of
        None \<Rightarrow> ([], Fatal)
      | Some ifc \<Rightarrow>
         (case DNSMessage_FromBytes DNSMessage_zero data of
            None \<Rightarrow> ([], DecodeUnending)
          | Some (Inl pn) \<Rightarrow> ([], Panicked pn)
          | Some (Inr m) \<Rightarrow>
             (case msg_loop_rounds IsMulticast Equal InterfaceByIndex mdns_ip rest of
                (evs, e) \<Rightarrow> (\<lparr>iface = ifc, peer = p, src = s, dst = d, msg = m\<rparr> # evs, e))))"

definition msg_loop ::
  "('ip \<Rightarrow> bool) \<Rightarrow> ('ip \<Rightarrow> 'ip \<Rightarrow> bool) \<Rightarrow> (int \<Rightarrow> 'iface option) \<Rightarrow> ('ifc \<Rightarrow> bool) \<Rightarrow> bool
   \<Rightarrow> 'ip \<Rightarrow> 'ifc list \<Rightarrow> ('addr, 'ip) loop_input list
   \<Rightarrow> ('iface, 'addr, 'ip) DNSMsgInfo list \<times> loop_end" where
  "msg_loop IsMulticast Equal InterfaceByIndex JoinGroup SetControlMessageWrapper mdns_ip ifaces
     inputs =
     (let n_joined = length (filter JoinGroup ifaces) in
      if n_joined < 1 then ([], Returned)
      else if \<not> SetControlMessageWrapper then ([], Fatal)
      else msg_loop_rounds IsMulticast Equal InterfaceByIndex mdns_ip inputs)"

section \<open>Facts about the label resolver\<close>

text \<open>
  Where pointers are not followed, or the buffer holds no byte with both top bits set, the
  resolver is the total reading of length-prefixed strings.
\<close>

lemma parse_labels_loop_raw:
  "\<not> allow_ptr \<or> (\<forall>c \<in> set b. c AND 0xC0 \<noteq> 0xC0) \<Longrightarrow>
   parse_labels_loop i max_i b allow_ptr results = Some (spec_raw_strings i max_i b results)"
proof (induction i max_i b results rule: spec_raw_strings.induct)
  case (1 i max_i b results)
  show ?case
  proof (cases "max_i > 0 \<and> i \<ge> max_i")
    case True
    then show ?thesis
      by (subst parse_labels_loop.simps, subst spec_raw_strings.simps) simp
  next
    case nb: False
    show ?thesis
    proof (cases "0 \<le> i \<and> i < int (length b)")
      case False
      with nb show ?thesis
        by (subst parse_labels_loop.simps, subst spec_raw_strings.simps)
           (auto simp add: index_byte_def)
    next
      case inb: True
      then have mem: "b ! nat i \<in> set b" by (intro nth_mem) linarith
      have noptr: "\<not> (allow_ptr \<and> (b ! nat i) AND 0xC0 = 0xC0)"
        using "1.prems" mem by blast
      show ?thesis
      proof (cases "b ! nat i = 0")
        case True
        with nb inb noptr show ?thesis
          by (subst parse_labels_loop.simps, subst spec_raw_strings.simps)
             (auto simp add: index_byte_def)
      next
        case nz: False
        then have nz': "uint (b ! nat i) \<noteq> 0" by (simp add: uint_0_iff)
        show ?thesis
        proof (cases "int (length b) < i + 1 + uint (b ! nat i)")
          case True
          with nb inb noptr nz nz' show ?thesis
            by (subst parse_labels_loop.simps, subst spec_raw_strings.simps)
               (auto simp add: index_byte_def slice_def)
        next
          case False
          have sl: "slice b (i + 1) (i + 1 + uint (b ! nat i))
                    = Inr (take (unat (b ! nat i)) (drop (nat i + 1) b))"
          proof -
            have "nat (uint (b ! nat i)) = unat (b ! nat i)" by simp
            moreover have "nat (i + 1) = nat i + 1" using inb by linarith
            ultimately show ?thesis using False inb by (simp add: slice_def)
          qed
          have IH: "parse_labels_loop (i + 1 + uint (b ! nat i)) max_i b allow_ptr
                      (results @ [take (unat (b ! nat i)) (drop (nat i + 1) b)])
                   = Some (spec_raw_strings (i + 1 + uint (b ! nat i)) max_i b
                      (results @ [take (unat (b ! nat i)) (drop (nat i + 1) b)]))"
            using "1.IH" nb inb nz False "1.prems" by simp
          show ?thesis
            using nb inb noptr nz nz' False IH
            by (subst parse_labels_loop.simps, subst spec_raw_strings.simps)
               (auto simp add: index_byte_def sl)
        qed
      qed
    qed
  qed
qed

lemma parse_labels_loop_self_pointer:
  assumes "parse_labels_loop i m b a acc = Some y"
  shows "\<not> (i = 0 \<and> m \<le> 0 \<and> b = [0xC0, 0] \<and> a)"
proof (rule parse_labels_loop.raw_induct
         [where P = "\<lambda>i m b a acc y. \<not> (i = 0 \<and> m \<le> 0 \<and> b = [0xC0, 0] \<and> a)", OF _ assms],
       goal_cases)
  case (1 f i m b a acc y)
  show ?case
  proof
    assume A: "i = 0 \<and> m \<le> 0 \<and> b = [0xC0, 0] \<and> a"
    then obtain z where "f 0 m b a [] = Some z"
      using 1(2)
      by (auto simp add: index_byte_def read_u16_def slice_from_def Uint16_def
               split: Option.bind_splits)
    from 1(1)[OF this] A show False by simp
  qed
qed

lemma parse_labels_loop_offset_bound:
  assumes "parse_labels_loop i m b a acc = Some y"
  shows "0 < m \<longrightarrow> (case y of Inl p \<Rightarrow> True | Inr (j, ls) \<Rightarrow> j \<le> m + 1)"
proof (rule parse_labels_loop.raw_induct
         [where P = "\<lambda>i m b a acc y. 0 < m \<longrightarrow> (case y of Inl p \<Rightarrow> True | Inr (j, ls) \<Rightarrow> j \<le> m + 1)", OF _ assms],
       goal_cases)
  case (1 f i m b a acc y)
  show ?case
    using 1(2)
    by (auto simp: Let_def split: if_splits sum.splits Option.bind_splits prod.splits
             dest!: 1(1))
qed

lemma parse_labels_loop_scan:
  "parse_labels_loop i max_i b allow_ptr results =
     (case scan_labels i max_i b allow_ptr results of
        ScanDone r \<Rightarrow> Some r
      | ScanPointer p t rs \<Rightarrow>
          Option.bind (parse_labels_loop t max_i b allow_ptr [])
            (\<lambda>r. case r of Inl e \<Rightarrow> Some (Inl e)
                  | Inr (_, new_results) \<Rightarrow> Some (Inr (p + 2, rs @ new_results))))"
proof (induction i max_i b allow_ptr results rule: scan_labels.induct)
  case (1 i max_i b allow_ptr results)
  show ?case
    apply (subst parse_labels_loop.simps)
    apply (subst scan_labels.simps)
    using 1
    apply (auto simp: Let_def split: sum.splits)
    done
qed

lemma hops_Some_loop:
  "parse_labels_hops n i max_i b allow_ptr results = Some r \<Longrightarrow>
   parse_labels_loop i max_i b allow_ptr results = Some r"
proof (induction n arbitrary: i results r)
  case 0
  then show ?case
    by (subst parse_labels_loop_scan) (auto split: scan_end.splits)
next
  case (Suc n)
  show ?case
  proof (cases "scan_labels i max_i b allow_ptr results")
    case (ScanDone x)
    with Suc.prems show ?thesis by (subst parse_labels_loop_scan) simp
  next
    case (ScanPointer p t rs)
    with Suc.prems obtain z where z: "parse_labels_hops n t max_i b allow_ptr [] = Some z"
      by (auto split: Option.bind_splits)
    from Suc.IH [OF z] ScanPointer Suc.prems z show ?thesis
      by (subst parse_labels_loop_scan) simp
  qed
qed

lemma hops_scan_cong:
  "scan_labels i max_i b allow_ptr results = scan_labels i' max_i b allow_ptr results' \<Longrightarrow>
   parse_labels_hops n i max_i b allow_ptr results = parse_labels_hops n i' max_i b allow_ptr results'"
  by (cases n) simp_all

lemma loop_Some_hops:
  assumes "parse_labels_loop i max_i b allow_ptr results = Some r"
  shows "\<exists>n. parse_labels_hops n i max_i b allow_ptr results = Some r"
proof (rule parse_labels_loop.raw_induct
         [where P = "\<lambda>i max_i b allow_ptr results r.
                       \<exists>n. parse_labels_hops n i max_i b allow_ptr results = Some r", OF _ assms],
       goal_cases)
  case (1 f i m b a acc y)
  note body = 1(2) and IH = 1(1)
  note sc = scan_labels.simps [of i m b a acc]
  show ?case
  proof (cases "m > 0 \<and> i \<ge> m")
    case True
    with body sc have "parse_labels_hops 0 i m b a acc = Some y" by simp
    then show ?thesis ..
  next
    case nb: False
    show ?thesis
    proof (cases "index_byte b i")
      case (Inl p)
      with nb body sc have "parse_labels_hops 0 i m b a acc = Some y" by auto
      then show ?thesis ..
    next
      case c: (Inr c)
      show ?thesis
      proof (cases "a \<and> (c AND 0xC0) = 0xC0")
        case ptr: True
        show ?thesis
        proof (cases "read_u16 b i")
          case (Inl p)
          with nb c ptr body sc have "parse_labels_hops 0 i m b a acc = Some y" by auto
          then show ?thesis ..
        next
          case w: (Inr w)
          from nb c ptr w sc
          have sp: "scan_labels i m b a acc = ScanPointer i (uint (w AND 0x3FFF)) acc" by auto
          from nb c ptr w body obtain z where
            z: "f (uint (w AND 0x3FFF)) m b a [] = Some z" and
            y: "(case z of Inl e \<Rightarrow> Some (Inl e)
                 | Inr (_, new_results) \<Rightarrow> Some (Inr (i + 2, acc @ new_results))) = Some y"
            by (auto split: Option.bind_splits)
          from IH [OF z] obtain n where
            "parse_labels_hops n (uint (w AND 0x3FFF)) m b a [] = Some z" ..
          with sp y have "parse_labels_hops (Suc n) i m b a acc = Some y" by simp
          then show ?thesis ..
        qed
      next
        case lit: False
        show ?thesis
        proof (cases "uint c = 0")
          case True
          with nb c lit body sc have "parse_labels_hops 0 i m b a acc = Some y" by auto
          then show ?thesis ..
        next
          case nz: False
          show ?thesis
          proof (cases "slice b (i + 1) (i + 1 + uint c)")
            case (Inl p)
            with nb c lit nz body sc have "parse_labels_hops 0 i m b a acc = Some y" by auto
            then show ?thesis ..
          next
            case s: (Inr s)
            with nb c lit nz body have "f (i + 1 + uint c) m b a (acc @ [s]) = Some y" by auto
            from IH [OF this] obtain n where
              n: "parse_labels_hops n (i + 1 + uint c) m b a (acc @ [s]) = Some y" ..
            from nb c lit nz s sc
            have "scan_labels i m b a acc = scan_labels (i + 1 + uint c) m b a (acc @ [s])"
              by auto
            from hops_scan_cong [OF this] n
            have "parse_labels_hops n i m b a acc = Some y" by simp
            then show ?thesis ..
          qed
        qed
      qed
    qed
  qed
qed

lemma self_loop_hops_None:
  "scan_labels i max_i b allow_ptr [] = ScanPointer p i ls \<Longrightarrow>
   parse_labels_hops n i max_i b allow_ptr [] = None"
  by (induction n) simp_all

lemma scan_pointer_target_nonneg:
  "scan_labels i max_i b allow_ptr results = ScanPointer p t ls \<Longrightarrow> 0 \<le> t"
proof (induction i max_i b allow_ptr results rule: scan_labels.induct)
  case (1 i max_i b allow_ptr results)
  from "1.prems" scan_labels.simps [of i max_i b allow_ptr results] "1.IH" show ?case
    by (auto simp: Let_def split: if_splits sum.splits)
qed

lemma loop_returns_decreasing_targets:
  assumes dec: "\<forall>s rs p t ls. scan_labels s max_i b allow_ptr rs = ScanPointer p t ls \<longrightarrow> t < s"
  shows "\<exists>r. parse_labels_loop i max_i b allow_ptr results = Some r"
proof (induction "nat i" arbitrary: i results rule: less_induct)
  case less
  show ?case
  proof (cases "scan_labels i max_i b allow_ptr results")
    case (ScanDone x)
    then show ?thesis by (subst parse_labels_loop_scan) simp
  next
    case (ScanPointer p t rs)
    with dec have ts: "t < i" by blast
    from scan_pointer_target_nonneg [OF ScanPointer] have "0 \<le> t" .
    with ts have "nat t < nat i" by simp
    from less [OF this] obtain r where "parse_labels_loop t max_i b allow_ptr [] = Some r"
      by blast
    with ScanPointer show ?thesis
      by (subst parse_labels_loop_scan) (auto split: sum.splits)
  qed
qed

section \<open>Facts about the record decoder\<close>

lemma obind_Inr_iff:
  "obind m f = Some (Inr y) \<longleftrightarrow> (\<exists>x. m = Some (Inr x) \<and> f x = Some (Inr y))"
  by (auto simp: obind_def split: option.splits sum.splits)


lemma DNSRRHeader_FromBytes_Inr:
  "DNSRRHeader_FromBytes h i b = Some (Inr (i1, h')) \<longleftrightarrow>
   (\<exists>i0 l t c. parse_labels i (- 1) b True = Some (Inr (i0, l)) \<and> read_u16 b i0 = Inr t \<and>
      read_u16 b (i0 + 2) = Inr c \<and> i1 = i0 + 4 \<and>
      h' = h\<lparr>Name := Join l dot, Type := t, Class := c\<rparr>)"
  by (auto simp: DNSRRHeader_FromBytes_def obind_Inr_iff)

lemma DNSRR_FromBytes_Inr:
  "DNSRR_FromBytes rr i b = Some (Inr (j, rr')) \<longleftrightarrow>
   (\<exists>i1 h ttl w raw. DNSRRHeader_FromBytes (RRHeader rr) i b = Some (Inr (i1, h)) \<and>
      read_u32 b i1 = Inr ttl \<and> read_u16 b (i1 + 4) = Inr w \<and>
      slice b (i1 + 6) (i1 + 6 + uint w) = Inr raw \<and>
      payload_switch (rr\<lparr>RRHeader := h, TTL := ttl, raw_payload := raw\<rparr>) (i1 + 6) (uint w) b
        = Some (Inr rr') \<and>
      j = i1 + 6 + uint w)"
  by (auto simp: DNSRR_FromBytes_def obind_Inr_iff Let_def add.commute)

lemmas type_defs = A_def PTR_def TXT_def AAAA_def SRV_def

lemma payload_switch_fields:
  "payload_switch rr i n b = Some (Inr rr') \<Longrightarrow>
   RRHeader rr' = RRHeader rr \<and> TTL rr' = TTL rr \<and> raw_payload rr' = raw_payload rr"
  by (auto simp: payload_switch_def obind_Inr_iff split: if_splits)

lemma payload_switch_TXT:
  "Type (RRHeader rr) = TXT \<Longrightarrow>
   payload_switch rr i n b =
     (case spec_raw_strings i (i + n) b [] of Inl p \<Rightarrow> Some (Inl p)
      | Inr (k, l) \<Rightarrow> Some (Inr (rr\<lparr>Payload := DNSPayloadTxt (Join l space)\<rparr>)))"
  using parse_labels_loop_raw [of False b i "i + n" "[]"]
  by (simp add: payload_switch_def type_defs parse_labels_def obind_def split: sum.splits)

lemma payload_switch_SRV:
  "Type (RRHeader rr) = SRV \<Longrightarrow> payload_switch rr i n b = Some (Inr rr') \<Longrightarrow>
   \<exists>k l priority weight port. parse_labels (i + 6) (i + n) b True = Some (Inr (k, l)) \<and>
     read_u16 b i = Inr priority \<and> read_u16 b (i + 2) = Inr weight \<and>
     read_u16 b (i + 4) = Inr port \<and>
     rr' = rr\<lparr>Payload := DNSPayloadSrv priority weight port (Join l space)\<rparr>"
  by (auto simp: payload_switch_def type_defs obind_Inr_iff)

lemma payload_switch_other:
  "Type (RRHeader rr) \<notin> {A, PTR, TXT, AAAA, SRV} \<Longrightarrow> payload_switch rr i n b = Some (Inr rr)"
  by (simp add: payload_switch_def)

lemma read_u16_Inr_bounds: "read_u16 b i = Inr w \<Longrightarrow> 0 \<le> i \<and> i + 2 \<le> int (length b)"
  by (auto simp: read_u16_def slice_from_def Uint16_def split: if_splits)

lemma read_u32_in_bounds: "0 \<le> i \<Longrightarrow> i + 4 \<le> int (length b) \<Longrightarrow> \<exists>v. read_u32 b i = Inr v"
  by (auto simp: read_u32_def slice_from_def Uint32_def)

section \<open>Facts about the message decoder\<close>

lemma question_loop_sections:
  "question_loop n m i = Some (Inr (j, m')) \<Longrightarrow>
   MsgHeader m' = MsgHeader m \<and> raw_msg m' = raw_msg m
   \<and> length (Question m') = length (Question m) + n
   \<and> Answer m' = Answer m \<and> Authority m' = Authority m \<and> Additional m' = Additional m"
proof (induction n arbitrary: m i)
  case 0
  then show ?case by simp
next
  case (Suc n)
  from Suc.prems obtain i' h where
    "question_loop n (m\<lparr>Question := Question m @ [h]\<rparr>) i' = Some (Inr (j, m'))"
    by (auto simp: obind_Inr_iff)
  from Suc.IH [OF this] show ?case by simp
qed

lemma answer_loop_sections:
  "answer_loop n m i = Some (Inr (j, m')) \<Longrightarrow>
   MsgHeader m' = MsgHeader m \<and> raw_msg m' = raw_msg m
   \<and> Question m' = Question m
   \<and> length (Answer m') = length (Answer m) + n
   \<and> Authority m' = Authority m \<and> Additional m' = Additional m"
proof (induction n arbitrary: m i)
  case 0
  then show ?case by simp
next
  case (Suc n)
  from Suc.prems obtain i' rr where
    "answer_loop n (m\<lparr>Answer := Answer m @ [rr]\<rparr>) i' = Some (Inr (j, m'))"
    by (auto simp: obind_Inr_iff)
  from Suc.IH [OF this] show ?case by simp
qed

lemma authority_loop_sections:
  "authority_loop n m i = Some (Inr (j, m')) \<Longrightarrow>
   MsgHeader m' = MsgHeader m \<and> raw_msg m' = raw_msg m
   \<and> Question m' = Question m \<and> Answer m' = Answer m
   \<and> length (Authority m') = length (Authority m) + n
   \<and> Additional m' = Additional m"
proof (induction n arbitrary: m i)
  case 0
  then show ?case by simp
next
  case (Suc n)
  from Suc.prems obtain i' rr where
    "authority_loop n (m\<lparr>Authority := Authority m @ [rr]\<rparr>) i' = Some (Inr (j, m'))"
    by (auto simp: obind_Inr_iff)
  from Suc.IH [OF this] show ?case by simp
qed

lemma additional_loop_sections:
  "additional_loop n m i = Some (Inr (j, m')) \<Longrightarrow>
   MsgHeader m' = MsgHeader m \<and> raw_msg m' = raw_msg m
   \<and> Question m' = Question m \<and> Answer m' = Answer m \<and> Authority m' = Authority m
   \<and> length (Additional m') = length (Additional m) + n"
proof (induction n arbitrary: m i)
  case 0
  then show ?case by simp
next
  case (Suc n)
  from Suc.prems obtain i' rr where
    "additional_loop n (m\<lparr>Additional := Additional m @ [rr]\<rparr>) i' = Some (Inr (j, m'))"
    by (auto simp: obind_Inr_iff)
  from Suc.IH [OF this] show ?case by simp
qed

lemma DNSMessage_decode_Inr:
  "DNSMessage_decode m bytes = Some (Inr (i, m')) \<Longrightarrow>
   \<exists>i0 h i1 m1 i2 m2 i3 m3.
     DNSMessageHeader_FromBytes (MsgHeader m) 0 bytes = Inr (i0, h)
     \<and> question_loop (unat (QuestionCount h)) (m\<lparr>raw_msg := bytes, MsgHeader := h\<rparr>) i0
         = Some (Inr (i1, m1))
     \<and> answer_loop (unat (AnswerCount (MsgHeader m1))) m1 i1 = Some (Inr (i2, m2))
     \<and> authority_loop (unat (AuthorityCount (MsgHeader m2))) m2 i2 = Some (Inr (i3, m3))
     \<and> additional_loop (unat (AdditionalCount (MsgHeader m3))) m3 i3 = Some (Inr (i, m'))"
  by (auto simp: DNSMessage_decode_def obind_Inr_iff Let_def)

lemma DNSMessage_decode_section_lengths:
  assumes "DNSMessage_decode m bytes = Some (Inr (i, m'))"
  shows "length (Question m') = length (Question m) + unat (QuestionCount (MsgHeader m'))
       \<and> length (Answer m') = length (Answer m) + unat (AnswerCount (MsgHeader m'))
       \<and> length (Authority m') = length (Authority m) + unat (AuthorityCount (MsgHeader m'))
       \<and> length (Additional m') = length (Additional m) + unat (AdditionalCount (MsgHeader m'))"
proof -
  from DNSMessage_decode_Inr [OF assms] obtain i0 h i1 m1 i2 m2 i3 m3 where
    q: "question_loop (unat (QuestionCount h)) (m\<lparr>raw_msg := bytes, MsgHeader := h\<rparr>) i0
          = Some (Inr (i1, m1))" and
    a: "answer_loop (unat (AnswerCount (MsgHeader m1))) m1 i1 = Some (Inr (i2, m2))" and
    u: "authority_loop (unat (AuthorityCount (MsgHeader m2))) m2 i2 = Some (Inr (i3, m3))" and
    d: "additional_loop (unat (AdditionalCount (MsgHeader m3))) m3 i3 = Some (Inr (i, m'))"
    by blast
  note Q = question_loop_sections [OF q]
  note A' = answer_loop_sections [OF a]
  note U = authority_loop_sections [OF u]
  note D = additional_loop_sections [OF d]
  from Q A' U D show ?thesis by simp
qed



















lemma read_u32_Inr_bounds: "read_u32 b i = Inr w \<Longrightarrow> 0 \<le> i \<and> i + 4 \<le> int (length b)"
  by (auto simp: read_u32_def slice_from_def Uint32_def split: if_splits)

















section \<open>Facts about the capture loop\<close>

lemma msg_loop_rounds_events:
  "msg_loop_rounds IsMulticast Equal InterfaceByIndex mdns_ip inputs = (evs, e) \<Longrightarrow>
   \<forall>ev \<in> set evs. IsMulticast (dst ev) \<and> Equal (dst ev) mdns_ip
      \<and> (\<exists>data p idx s. Received (ReadOk data p idx s (dst ev)) \<in> set inputs)"
proof (induction IsMulticast Equal InterfaceByIndex mdns_ip inputs arbitrary: evs e
       rule: msg_loop_rounds.induct)
  case (5 IsMulticast Equal InterfaceByIndex mdns_ip data p idx s d rest)
  show ?case
  proof (cases "\<not> IsMulticast d \<or> \<not> Equal d mdns_ip")
    case True
    with "5.prems" "5.IH"(1) show ?thesis by fastforce
  next
    case False
    show ?thesis
    proof (cases "InterfaceByIndex idx")
      case None
      with False "5.prems" show ?thesis by simp
    next
      case (Some ifc)
      show ?thesis
      proof (cases "DNSMessage_FromBytes DNSMessage_zero data")
        case None
        with False Some "5.prems" show ?thesis by simp
      next
        case dec: (Some r)
        show ?thesis
        proof (cases r)
          case (Inl pn)
          with False Some dec "5.prems" show ?thesis by simp
        next
          case (Inr m)
          obtain evs' e' where rest:
            "msg_loop_rounds IsMulticast Equal InterfaceByIndex mdns_ip rest = (evs', e')"
            by (cases "msg_loop_rounds IsMulticast Equal InterfaceByIndex mdns_ip rest")
          from "5.IH"(2) [OF False Some dec Inr rest]
          have IH: "\<forall>ev \<in> set evs'. IsMulticast (dst ev) \<and> Equal (dst ev) mdns_ip
              \<and> (\<exists>data p idx s. Received (ReadOk data p idx s (dst ev)) \<in> set rest)" .
          from False Some dec Inr rest "5.prems"
          have "evs = \<lparr>iface = ifc, peer = p, src = s, dst = d, msg = m\<rparr> # evs'" by simp
          with IH False show ?thesis by fastforce
        qed
      qed
    qed
  qed
qed (auto)

section \<open>The claims\<close>

text \<open>
  Claim C1, as stated: for every input buffer, also one where a compression pointer points
  to itself, \<^verbatim>\<open>parse_labels\<close> terminates and returns a result, never looping without bound
  or crashing. It fails on the code: on the two bytes \<open>C0 00\<close> at offset 0 the pointer
  leads back to offset 0 and the call never returns, and on the empty buffer the first
  index expression panics.
\<close>

theorem parse_labels_self_pointer_counterexample:
  "parse_labels 0 (- 1) [0xC0, 0x00] True = None
   \<and> parse_labels 0 (- 1) [] True = Some (Inl IndexOutOfRange)"
proof
  show "parse_labels 0 (- 1) [0xC0, 0x00] True = None"
  proof (cases "parse_labels_loop 0 (- 1) [0xC0, 0x00] True []")
    case None
    then show ?thesis by (simp add: parse_labels_def)
  next
    case (Some y)
    from parse_labels_loop_self_pointer [OF this] show ?thesis by simp
  qed
  show "parse_labels 0 (- 1) [] True = Some (Inl IndexOutOfRange)"
    by (simp add: parse_labels_def parse_labels_loop.simps index_byte_def)
qed

text \<open>
  Claim C1, amended: for every input buffer, \<^verbatim>\<open>parse_labels\<close> returns (labels or an
  out-of-range panic) exactly when the chain of compression pointers it follows ends
  after finitely many hops, and then with the result of the resolver that allows that
  many hops. So it returns when pointer following is disabled, when the buffer holds no
  byte with both top bits set, and when every pointer that a reading meets has its target
  before the offset where that reading started; and it never returns when a pointer leads
  back to the offset where the reading that met it started.
\<close>

theorem parse_labels_returns_iff_hops_end:
  "(parse_labels i max_i b allow_ptr = Some r
      \<longleftrightarrow> (\<exists>n. parse_labels_hops n i max_i b allow_ptr [] = Some r))
   \<and> (scan_labels i max_i b allow_ptr [] = ScanPointer p i ls \<longrightarrow>
        parse_labels i max_i b allow_ptr = None)
   \<and> (\<not> allow_ptr \<or> (\<forall>c \<in> set b. c AND 0xC0 \<noteq> 0xC0) \<longrightarrow>
        (\<exists>r'. parse_labels i max_i b allow_ptr = Some r'))
   \<and> ((\<forall>s rs q t ks. scan_labels s max_i b allow_ptr rs = ScanPointer q t ks \<longrightarrow> t < s) \<longrightarrow>
        (\<exists>r'. parse_labels i max_i b allow_ptr = Some r'))"
proof (intro conjI impI)
  show "parse_labels i max_i b allow_ptr = Some r
      \<longleftrightarrow> (\<exists>n. parse_labels_hops n i max_i b allow_ptr [] = Some r)"
    unfolding parse_labels_def using loop_Some_hops hops_Some_loop by blast
next
  assume cyc: "scan_labels i max_i b allow_ptr [] = ScanPointer p i ls"
  show "parse_labels i max_i b allow_ptr = None"
  proof (cases "parse_labels_loop i max_i b allow_ptr []")
    case None
    then show ?thesis by (simp add: parse_labels_def)
  next
    case (Some y)
    from loop_Some_hops [OF this] self_loop_hops_None [OF cyc] show ?thesis by simp
  qed
next
  assume "\<not> allow_ptr \<or> (\<forall>c \<in> set b. c AND 0xC0 \<noteq> 0xC0)"
  then show "\<exists>r'. parse_labels i max_i b allow_ptr = Some r'"
    unfolding parse_labels_def using parse_labels_loop_raw by blast
next
  assume "\<forall>s rs q t ks. scan_labels s max_i b allow_ptr rs = ScanPointer q t ks \<longrightarrow> t < s"
  then show "\<exists>r'. parse_labels i max_i b allow_ptr = Some r'"
    unfolding parse_labels_def by (rule loop_returns_decreasing_targets)
qed

theorem parse_labels_returns_iff_hops_end_witness:
  "parse_labels 3 (- 1) [1, 0x61, 0, 0xC0, 0] True = Some (Inr (5, [[0x61]]))
   \<and> parse_labels 0 (- 1) [4, 1, 2, 3, 4, 0xC0, 0] True = None
   \<and> (\<exists>r. parse_labels 0 (- 1) [0xC0, 0x00] False = Some r)
   \<and> (\<exists>r. parse_labels 0 (- 1) [1, 0x61, 0x00] True = Some r)
   \<and> (\<exists>r. parse_labels 5 (- 1) [1, 0x61, 0, 0xC0, 0, 0xC0, 3] True = Some r)"
proof -
  have h: "parse_labels_hops 1 3 (- 1) [1, 0x61, 0, 0xC0, 0] True [] = Some (Inr (5, [[0x61]]))"
    by code_simp
  have 1: "parse_labels 3 (- 1) [1, 0x61, 0, 0xC0, 0] True = Some (Inr (5, [[0x61]]))"
    using parse_labels_returns_iff_hops_end
      [of 3 "- 1" "[1, 0x61, 0, 0xC0, 0]" True "Inr (5, [[0x61]])"] h
    by blast
  have c: "scan_labels 0 (- 1) [4, 1, 2, 3, 4, 0xC0, 0] True [] = ScanPointer 5 0 [[1, 2, 3, 4]]"
    by code_simp
  have 2: "parse_labels 0 (- 1) [4, 1, 2, 3, 4, 0xC0, 0] True = None"
    using parse_labels_returns_iff_hops_end
      [of 0 "- 1" "[4, 1, 2, 3, 4, 0xC0, 0]" True _ 5 "[[1, 2, 3, 4]]"] c
    by blast
  have 3: "\<exists>r. parse_labels 0 (- 1) [0xC0, 0x00] False = Some r"
    using parse_labels_returns_iff_hops_end [of 0 "- 1" "[0xC0, 0x00]" False]
    by blast
  have np: "\<forall>c \<in> set [1, 0x61, 0x00 :: byte]. c AND 0xC0 \<noteq> 0xC0"
    by simp
  have 4: "\<exists>r. parse_labels 0 (- 1) [1, 0x61, 0x00] True = Some r"
    using parse_labels_returns_iff_hops_end [of 0 "- 1" "[1, 0x61, 0x00]" True] np
    by blast
  have dec: "\<forall>s rs q t ks.
      scan_labels s (- 1) [1, 0x61, 0, 0xC0, 0, 0xC0, 3] True rs = ScanPointer q t ks \<longrightarrow> t < s"
  proof (intro allI impI)
    fix s :: int and rs q t ks
    assume sp: "scan_labels s (- 1) [1, 0x61, 0, 0xC0, 0, 0xC0, 3] True rs = ScanPointer q t ks"
    consider "s < 0" | "s = 0" | "s = 1" | "s = 2" | "s = 3" | "s = 4" | "s = 5" | "s = 6"
      | "7 \<le> s" by linarith
    then show "t < s"
    proof cases
      case 1
      with sp show ?thesis
        by (subst (asm) scan_labels.simps) (simp add: index_byte_def)
    next
      case 2
      with sp show ?thesis
        by (simp add: scan_labels.simps index_byte_def slice_def read_u16_def slice_from_def Uint16_def)
    next
      case 3
      with sp show ?thesis
        by (simp add: scan_labels.simps index_byte_def slice_def read_u16_def slice_from_def Uint16_def)
    next
      case 4
      with sp show ?thesis
        by (simp add: scan_labels.simps index_byte_def slice_def read_u16_def slice_from_def Uint16_def)
    next
      case 5
      with sp show ?thesis
        by (simp add: scan_labels.simps index_byte_def slice_def read_u16_def slice_from_def Uint16_def)
    next
      case 6
      with sp show ?thesis
        by (simp add: scan_labels.simps index_byte_def slice_def read_u16_def slice_from_def Uint16_def)
    next
      case 7
      with sp show ?thesis
        by (simp add: scan_labels.simps index_byte_def slice_def read_u16_def slice_from_def Uint16_def)
    next
      case 8
      with sp show ?thesis
        by (simp add: scan_labels.simps index_byte_def slice_def read_u16_def slice_from_def Uint16_def)
    next
      case 9
      with sp show ?thesis
        by (subst (asm) scan_labels.simps) (simp add: index_byte_def)
    qed
  qed
  have 5: "\<exists>r. parse_labels 5 (- 1) [1, 0x61, 0, 0xC0, 0, 0xC0, 3] True = Some r"
    using parse_labels_returns_iff_hops_end [of 5 "- 1" "[1, 0x61, 0, 0xC0, 0, 0xC0, 3]" True] dec
    by blast
  from 1 2 3 4 5 show ?thesis by blast
qed




text \<open>
  Claim C3: the decoder checks that the 4 bytes of an A payload and the 16 bytes of an AAAA
  payload lie within the buffer before it reads them. The code does not (its comments
  \<^verbatim>\<open>FIX THIS: BOUNDS CHECK\<close> say so): an A record with 2 bytes of rdata at the end of the
  buffer panics at \<^verbatim>\<open>b[i+2]\<close>, and an AAAA record with 4 bytes of rdata at the end of the
  buffer panics at \<^verbatim>\<open>b[i:i+16]\<close>.
\<close>

theorem address_payload_read_unchecked:
  "DNSMessage_FromBytes DNSMessage_zero
     [0,0, 0x84,0, 0,0, 0,1, 0,0, 0,0,
      0, 0,1, 0,1, 0,0,0,120, 0,2, 10,0]
   = Some (Inl IndexOutOfRange)
   \<and> DNSMessage_FromBytes DNSMessage_zero
     [0,0, 0x84,0, 0,0, 0,1, 0,0, 0,0,
      0, 0,28, 0,1, 0,0,0,120, 0,4, 0xFE,0x80,0,0]
   = Some (Inl SliceBoundsOutOfRange)"
  by code_simp

text \<open>
  Claim C4: for every resource record that \<^verbatim>\<open>DNSRR.FromBytes\<close> decodes, the returned next
  offset is the offset where the rdata begins (after the header, the 4 bytes of TTL and
  the 2 bytes of length) plus the declared rdata length, whatever the record type and
  whatever the payload decoding read; the retained raw payload is that slice.
\<close>

theorem DNSRR_FromBytes_next_offset:
  "DNSRR_FromBytes rr i b = Some (Inr (j, rr')) \<Longrightarrow>
   \<exists>i1 h w. DNSRRHeader_FromBytes (RRHeader rr) i b = Some (Inr (i1, h))
     \<and> read_u16 b (i1 + 4) = Inr w
     \<and> j = (i1 + 4 + 2) + uint w
     \<and> slice b (i1 + 4 + 2) j = Inr (raw_payload rr')"
proof -
  assume "DNSRR_FromBytes rr i b = Some (Inr (j, rr'))"
  then obtain i1 h ttl w raw where
    hd: "DNSRRHeader_FromBytes (RRHeader rr) i b = Some (Inr (i1, h))" and
    w: "read_u16 b (i1 + 4) = Inr w" and
    sl: "slice b (i1 + 6) (i1 + 6 + uint w) = Inr raw" and
    sw: "payload_switch (rr\<lparr>RRHeader := h, TTL := ttl, raw_payload := raw\<rparr>) (i1 + 6) (uint w) b
           = Some (Inr rr')" and
    j: "j = i1 + 6 + uint w"
    unfolding DNSRR_FromBytes_Inr by blast
  from payload_switch_fields [OF sw] have "raw_payload rr' = raw" by simp
  with hd w sl j show ?thesis by (auto simp: add.commute)
qed

theorem DNSRR_FromBytes_next_offset_witness:
  "DNSRR_FromBytes DNSRR_zero 0 [0, 0,1, 0,1, 0,0,0,120, 0,6, 9,8,7,6,5,4, 3]
     = Some (Inr (17, \<lparr>RRHeader = \<lparr>Name = [], Type = 1, Class = 1\<rparr>, TTL = 120,
                Payload = DNSPayloadA (net_IPv4 9 8 7 6), raw_payload = [9,8,7,6,5,4]\<rparr>))
   \<and> (\<exists>i1 h w.
          DNSRRHeader_FromBytes (RRHeader DNSRR_zero) 0 [0, 0,1, 0,1, 0,0,0,120, 0,6, 9,8,7,6,5,4, 3]
            = Some (Inr (i1, h))
        \<and> read_u16 [0, 0,1, 0,1, 0,0,0,120, 0,6, 9,8,7,6,5,4, 3] (i1 + 4) = Inr w
        \<and> (17::int) = (i1 + 4 + 2) + uint w
        \<and> slice [0, 0,1, 0,1, 0,0,0,120, 0,6, 9,8,7,6,5,4, 3] (i1 + 4 + 2) 17
            = Inr [9,8,7,6,5,4])
   \<and> DNSRRHeader_FromBytes (RRHeader DNSRR_zero) 0 [0, 0,1, 0,1, 0,0,0,120, 0,6, 9,8,7,6,5,4, 3]
       = Some (Inr (5, \<lparr>Name = [], Type = 1, Class = 1\<rparr>))
   \<and> read_u16 [0, 0,1, 0,1, 0,0,0,120, 0,6, 9,8,7,6,5,4, 3] (5 + 4) = Inr 6
   \<and> (17::int) = (5 + 4 + 2) + uint (6 :: 16 word)"
proof -
  have e: "DNSRR_FromBytes DNSRR_zero 0 [0, 0,1, 0,1, 0,0,0,120, 0,6, 9,8,7,6,5,4, 3]
     = Some (Inr (17, \<lparr>RRHeader = \<lparr>Name = [], Type = 1, Class = 1\<rparr>, TTL = 120,
                Payload = DNSPayloadA (net_IPv4 9 8 7 6), raw_payload = [9,8,7,6,5,4]\<rparr>))"
    by code_simp
  have hd: "DNSRRHeader_FromBytes (RRHeader DNSRR_zero) 0
              [0, 0,1, 0,1, 0,0,0,120, 0,6, 9,8,7,6,5,4, 3]
            = Some (Inr (5, \<lparr>Name = [], Type = 1, Class = 1\<rparr>))"
    by code_simp
  have w: "read_u16 [0, 0,1, 0,1, 0,0,0,120, 0,6, 9,8,7,6,5,4, 3] (5 + 4) = Inr 6"
    by code_simp
  from DNSRR_FromBytes_next_offset [OF e] e hd w show ?thesis by simp
qed

text \<open>
  Claim C5: for every message that \<^verbatim>\<open>DNSMessage.FromBytes\<close> decodes successfully into a
  fresh message, as the message loop does, each of the four sections has as many entries
  as the corresponding count of the header.
\<close>

theorem section_lengths_equal_counts:
  "DNSMessage_FromBytes DNSMessage_zero bytes = Some (Inr m) \<Longrightarrow>
   length (Question m) = unat (QuestionCount (MsgHeader m))
   \<and> length (Answer m) = unat (AnswerCount (MsgHeader m))
   \<and> length (Authority m) = unat (AuthorityCount (MsgHeader m))
   \<and> length (Additional m) = unat (AdditionalCount (MsgHeader m))"
proof -
  assume "DNSMessage_FromBytes DNSMessage_zero bytes = Some (Inr m)"
  then obtain i where "DNSMessage_decode DNSMessage_zero bytes = Some (Inr (i, m))"
    by (auto simp: DNSMessage_FromBytes_def obind_Inr_iff)
  from DNSMessage_decode_section_lengths [OF this] show ?thesis
    by (simp add: DNSMessage_zero_def)
qed

theorem section_lengths_equal_counts_witness:
  "DNSMessage_FromBytes DNSMessage_zero
     [0,0, 0x84,0, 0,1, 0,1, 0,0, 0,0,
      1,0x61,0, 0,12, 0,1,
      0xC0,12, 0,12, 0,1, 0,0,0,120, 0,2, 0xC0,12]
   = Some (Inr \<lparr>MsgHeader =
           \<lparr>Identification = 0, Flags = 0x8400, QuestionCount = 1,
              AnswerCount = 1, AuthorityCount = 0, AdditionalCount = 0\<rparr>,
          Question = [\<lparr>Name = [0x61], Type = 12, Class = 1\<rparr>],
          Answer =
            [\<lparr>RRHeader = \<lparr>Name = [0x61], Type = 12, Class = 1\<rparr>, TTL = 120,
                Payload = DNSPayloadPtr [0x61], raw_payload = [0xC0, 12]\<rparr>],
          Authority = [], Additional = [],
          raw_msg =
            [0,0, 0x84,0, 0,1, 0,1, 0,0, 0,0,
             1,0x61,0, 0,12, 0,1,
             0xC0,12, 0,12, 0,1, 0,0,0,120, 0,2, 0xC0,12]\<rparr>)
   \<and> length [\<lparr>Name = [0x61::byte], Type = 12, Class = 1\<rparr>] = unat (1 :: 16 word)
   \<and> length [\<lparr>RRHeader = \<lparr>Name = [0x61], Type = 12, Class = 1\<rparr>, TTL = 120,
                Payload = DNSPayloadPtr [0x61], raw_payload = [0xC0, 12]\<rparr>]
       = unat (1 :: 16 word)
   \<and> length ([] :: DNSRR list) = unat (0 :: 16 word)"
proof -
  have e: "DNSMessage_FromBytes DNSMessage_zero
     [0,0, 0x84,0, 0,1, 0,1, 0,0, 0,0,
      1,0x61,0, 0,12, 0,1,
      0xC0,12, 0,12, 0,1, 0,0,0,120, 0,2, 0xC0,12]
   = Some (Inr \<lparr>MsgHeader =
           \<lparr>Identification = 0, Flags = 0x8400, QuestionCount = 1,
              AnswerCount = 1, AuthorityCount = 0, AdditionalCount = 0\<rparr>,
          Question = [\<lparr>Name = [0x61], Type = 12, Class = 1\<rparr>],
          Answer =
            [\<lparr>RRHeader = \<lparr>Name = [0x61], Type = 12, Class = 1\<rparr>, TTL = 120,
                Payload = DNSPayloadPtr [0x61], raw_payload = [0xC0, 12]\<rparr>],
          Authority = [], Additional = [],
          raw_msg =
            [0,0, 0x84,0, 0,1, 0,1, 0,0, 0,0,
             1,0x61,0, 0,12, 0,1,
             0xC0,12, 0,12, 0,1, 0,0,0,120, 0,2, 0xC0,12]\<rparr>)"
    by code_simp
  from section_lengths_equal_counts [OF e] e show ?thesis by simp
qed

text \<open>
  Claim C6: the message loop sends an event only for a received datagram whose destination
  is a multicast address equal to the group address, and a datagram that does not match is
  dropped: the round sends nothing, ends nothing, and the loop goes on with the next input.
\<close>

theorem events_only_for_group_datagrams:
  "(msg_loop IsMulticast Equal InterfaceByIndex JoinGroup SetControlMessageWrapper mdns_ip ifaces
      inputs = (evs, e) \<longrightarrow>
    (\<forall>ev \<in> set evs. IsMulticast (dst ev) \<and> Equal (dst ev) mdns_ip
      \<and> (\<exists>data p idx s. Received (ReadOk data p idx s (dst ev)) \<in> set inputs)))
   \<and> (\<not> (IsMulticast d \<and> Equal d mdns_ip) \<longrightarrow>
       msg_loop_rounds IsMulticast Equal InterfaceByIndex mdns_ip
         (Received (ReadOk data p idx s d) # rest)
       = msg_loop_rounds IsMulticast Equal InterfaceByIndex mdns_ip rest)"
proof
  show "msg_loop IsMulticast Equal InterfaceByIndex JoinGroup SetControlMessageWrapper mdns_ip
      ifaces inputs = (evs, e) \<longrightarrow>
    (\<forall>ev \<in> set evs. IsMulticast (dst ev) \<and> Equal (dst ev) mdns_ip
      \<and> (\<exists>data p idx s. Received (ReadOk data p idx s (dst ev)) \<in> set inputs))"
    using msg_loop_rounds_events [of IsMulticast Equal InterfaceByIndex mdns_ip inputs evs e]
    by (auto simp: msg_loop_def Let_def split: if_splits)
  show "\<not> (IsMulticast d \<and> Equal d mdns_ip) \<longrightarrow>
       msg_loop_rounds IsMulticast Equal InterfaceByIndex mdns_ip
         (Received (ReadOk data p idx s d) # rest)
       = msg_loop_rounds IsMulticast Equal InterfaceByIndex mdns_ip rest"
    by simp
qed

theorem events_only_for_group_datagrams_witness:
  "msg_loop (\<lambda>d::nat. d = 1) (=) (\<lambda>i. Some i) (\<lambda>i::nat. True) True 1 [0::nat]
     [Received (ReadOk [] () 0 (5::nat) 2), Received ReadTimeout,
      Received (ReadOk [0,0, 0x84,0, 0,0, 0,0, 0,0, 0,0] () 3 5 1), StopClosed]
   = ([\<lparr>iface = 3, peer = (), src = 5, dst = 1,
        msg = \<lparr>MsgHeader =
           \<lparr>Identification = 0, Flags = 0x8400, QuestionCount = 0,
              AnswerCount = 0, AuthorityCount = 0, AdditionalCount = 0\<rparr>,
           Question = [], Answer = [], Authority = [], Additional = [],
           raw_msg = [0,0, 0x84,0, 0,0, 0,0, 0,0, 0,0]\<rparr>\<rparr>], Returned)
   \<and> msg_loop_rounds (\<lambda>d::nat. d = 1) (=) (\<lambda>i::int. Some i) (1::nat)
        [Received (ReadOk [] () 0 (5::nat) 2), StopClosed]
      = msg_loop_rounds (\<lambda>d::nat. d = 1) (=) (\<lambda>i::int. Some i) (1::nat) [StopClosed :: (unit, nat) loop_input]
   \<and> (1::nat) = 1"
proof -
  let ?inputs = "[Received (ReadOk [] () 0 (5::nat) 2), Received ReadTimeout,
      Received (ReadOk [0,0, 0x84,0, 0,0, 0,0, 0,0, 0,0] () 3 5 1), StopClosed]"
  let ?ev = "\<lparr>iface = 3::int, peer = (), src = 5::nat, dst = 1::nat,
        msg = \<lparr>MsgHeader =
           \<lparr>Identification = 0, Flags = 0x8400, QuestionCount = 0,
              AnswerCount = 0, AuthorityCount = 0, AdditionalCount = 0\<rparr>,
           Question = [], Answer = [], Authority = [], Additional = [],
           raw_msg = [0,0, 0x84,0, 0,0, 0,0, 0,0, 0,0]\<rparr>\<rparr>"
  have e: "msg_loop (\<lambda>d::nat. d = 1) (=) (\<lambda>i. Some i) (\<lambda>i::nat. True) True 1 [0::nat] ?inputs
           = ([?ev], Returned)"
    by code_simp
  have "\<not> ((2::nat) = 1 \<and> (2::nat) = 1)" by simp
  with e events_only_for_group_datagrams
    [of "\<lambda>d::nat. d = 1" "(=)" "\<lambda>i. Some i" "\<lambda>i::nat. True" True 1 "[0::nat]" ?inputs
        "[?ev]" Returned 2 "[]" "()" 0 5 "[StopClosed]"]
  show ?thesis by simp
qed

text \<open>
  Claim C7: the payload of every TXT record is decoded with pointer following disabled: it
  is the raw reading of length-prefixed strings over the rdata, in which every length
  byte, also one with both top bits set, is a literal length, and the strings are joined
  with a single space.
\<close>

theorem TXT_payload_raw_strings:
  "DNSRR_FromBytes rr i b = Some (Inr (j, rr')) \<Longrightarrow> Type (RRHeader rr') = TXT \<Longrightarrow>
   \<exists>i1 h w n l. DNSRRHeader_FromBytes (RRHeader rr) i b = Some (Inr (i1, h))
     \<and> read_u16 b (i1 + 4) = Inr w
     \<and> spec_raw_strings (i1 + 6) (i1 + 6 + uint w) b [] = Inr (n, l)
     \<and> Payload rr' = DNSPayloadTxt (Join l space)"
proof -
  assume dec: "DNSRR_FromBytes rr i b = Some (Inr (j, rr'))" and ty: "Type (RRHeader rr') = TXT"
  from dec obtain i1 h ttl w raw where
    hd: "DNSRRHeader_FromBytes (RRHeader rr) i b = Some (Inr (i1, h))" and
    w: "read_u16 b (i1 + 4) = Inr w" and
    sw: "payload_switch (rr\<lparr>RRHeader := h, TTL := ttl, raw_payload := raw\<rparr>) (i1 + 6) (uint w) b
           = Some (Inr rr')"
    unfolding DNSRR_FromBytes_Inr by blast
  from payload_switch_fields [OF sw] ty
  have "Type (RRHeader (rr\<lparr>RRHeader := h, TTL := ttl, raw_payload := raw\<rparr>)) = TXT" by simp
  from payload_switch_TXT [OF this, of "i1 + 6" "uint w" b] sw
  obtain n l where "spec_raw_strings (i1 + 6) (i1 + 6 + uint w) b [] = Inr (n, l)"
    and "Payload rr' = DNSPayloadTxt (Join l space)"
    by (auto split: sum.splits)
  with hd w show ?thesis by blast
qed

theorem TXT_payload_raw_strings_witness:
  "DNSRR_FromBytes DNSRR_zero 0
     ([0, 0,16, 0,1, 0,0,0,120, 0,196, 0xC1] @ replicate 193 0x41 @ [1, 0x42])
   = Some (Inr (207, \<lparr>RRHeader = \<lparr>Name = [], Type = 16, Class = 1\<rparr>, TTL = 120,
        Payload = DNSPayloadTxt (replicate 193 0x41 @ [0x20, 0x42]),
        raw_payload = [0xC1] @ replicate 193 0x41 @ [1, 0x42]\<rparr>))
   \<and> (\<exists>i1 h w n l.
        DNSRRHeader_FromBytes (RRHeader DNSRR_zero) 0
          ([0, 0,16, 0,1, 0,0,0,120, 0,196, 0xC1] @ replicate 193 0x41 @ [1, 0x42])
          = Some (Inr (i1, h))
      \<and> read_u16 ([0, 0,16, 0,1, 0,0,0,120, 0,196, 0xC1] @ replicate 193 0x41 @ [1, 0x42])
          (i1 + 4) = Inr w
      \<and> spec_raw_strings (i1 + 6) (i1 + 6 + uint w)
          ([0, 0,16, 0,1, 0,0,0,120, 0,196, 0xC1] @ replicate 193 0x41 @ [1, 0x42]) []
          = Inr (n, l)
      \<and> DNSPayloadTxt (replicate 193 0x41 @ [0x20, 0x42]) = DNSPayloadTxt (Join l space))"
proof -
  have e: "DNSRR_FromBytes DNSRR_zero 0
     ([0, 0,16, 0,1, 0,0,0,120, 0,196, 0xC1] @ replicate 193 0x41 @ [1, 0x42])
   = Some (Inr (207, \<lparr>RRHeader = \<lparr>Name = [], Type = 16, Class = 1\<rparr>, TTL = 120,
        Payload = DNSPayloadTxt (replicate 193 0x41 @ [0x20, 0x42]),
        raw_payload = [0xC1] @ replicate 193 0x41 @ [1, 0x42]\<rparr>))"
    by code_simp
  have ty: "Type (RRHeader \<lparr>RRHeader = \<lparr>Name = [], Type = 16, Class = 1\<rparr>, TTL = 120,
        Payload = DNSPayloadTxt (replicate 193 0x41 @ [0x20, 0x42]),
        raw_payload = [0xC1] @ replicate 193 0x41 @ [1, 0x42]\<rparr>) = TXT"
    by (simp add: TXT_def)
  from TXT_payload_raw_strings [OF e ty] e show ?thesis
    by simp
qed

text \<open>
  Claim C8: a resource record that lies within the buffer and whose type is none of A, PTR,
  TXT, AAAA and SRV always decodes: the payload of the fresh record stays the nil
  fallback, and the retained raw payload is the rdata slice of the declared length.
\<close>

theorem unrecognised_type_opaque:
  assumes hd: "DNSRRHeader_FromBytes (RRHeader DNSRR_zero) i b = Some (Inr (i1, h))"
    and ty: "Type h \<notin> {A, PTR, TXT, AAAA, SRV}"
    and w: "read_u16 b (i1 + 4) = Inr w"
    and fit: "i1 + 6 + uint w \<le> int (length b)"
  shows "\<exists>ttl. DNSRR_FromBytes DNSRR_zero i b =
           Some (Inr (i1 + 6 + uint w,
             \<lparr>RRHeader = h, TTL = ttl, Payload = PayloadNil,
              raw_payload = take (unat w) (drop (nat (i1 + 6)) b)\<rparr>))"
proof -
  from hd obtain i0 t where "read_u16 b i0 = Inr t" and "i1 = i0 + 4"
    unfolding DNSRRHeader_FromBytes_Inr by auto
  with read_u16_Inr_bounds have i1: "0 \<le> i1" by fastforce
  from read_u16_Inr_bounds [OF w] have "i1 + 4 \<le> int (length b)" by simp
  with i1 read_u32_in_bounds obtain ttl where ttl: "read_u32 b i1 = Inr ttl" by blast
  have sl: "slice b (i1 + 6) (i1 + 6 + uint w) = Inr (take (unat w) (drop (nat (i1 + 6)) b))"
    using i1 fit by (simp add: slice_def)
  let ?rr = "DNSRR_zero\<lparr>RRHeader := h, TTL := ttl,
               raw_payload := take (unat w) (drop (nat (i1 + 6)) b)\<rparr>"
  have "payload_switch ?rr (i1 + 6) (uint w) b = Some (Inr ?rr)"
    using ty by (intro payload_switch_other) simp
  with hd ttl w sl have "DNSRR_FromBytes DNSRR_zero i b = Some (Inr (i1 + 6 + uint w, ?rr))"
    unfolding DNSRR_FromBytes_Inr by blast
  then show ?thesis by (auto simp: DNSRR_zero_def)
qed

theorem unrecognised_type_opaque_witness:
  "\<exists>ttl. DNSRR_FromBytes DNSRR_zero 0 [0, 3,231, 0,1, 0,0,0,120, 0,2, 9,8] =
     Some (Inr (13, \<lparr>RRHeader = \<lparr>Name = [], Type = 999, Class = 1\<rparr>, TTL = ttl,
                      Payload = PayloadNil, raw_payload = [9, 8]\<rparr>))"
proof -
  have hd: "DNSRRHeader_FromBytes (RRHeader DNSRR_zero) 0 [0, 3,231, 0,1, 0,0,0,120, 0,2, 9,8]
            = Some (Inr (5, \<lparr>Name = [], Type = 999, Class = 1\<rparr>))"
    by code_simp
  have ty: "Type \<lparr>Name = [], Type = 999, Class = 1\<rparr> \<notin> {A, PTR, TXT, AAAA, SRV}"
    by (simp add: type_defs)
  have w: "read_u16 [0, 3,231, 0,1, 0,0,0,120, 0,2, 9,8] (5 + 4) = Inr 2"
    by code_simp
  have fit: "5 + 6 + uint (2 :: 16 word) \<le> int (length [0, 3,231, 0,1, 0,0,0,120, 0,2, 9,8 :: byte])"
    by simp
  from unrecognised_type_opaque [OF hd ty w fit] show ?thesis by simp
qed

text \<open>
  Claim C9, as stated: with a positive bound, resolution that reaches or passes the bound
  returns at once with the labels accumulated so far, reading no byte beyond the bound. It
  fails on the code: with bound 3, the label that starts at offset 0 with length 5 is read
  whole, and the bytes at offsets 3, 4 and 5 are part of the result.
\<close>

theorem parse_labels_bound_counterexample:
  "parse_labels 0 3 [5, 1, 2, 3, 4, 5, 0] False = Some (Inr (4, [[1, 2, 3, 4, 5]]))"
  by (simp add: parse_labels_def parse_labels_loop.simps index_byte_def slice_def)

text \<open>
  Claim C9, amended: with a positive bound, the bound is checked only where a label starts.
  When the offset is at or past the bound there, resolution returns at once with the bound
  plus one and exactly the labels accumulated so far, and every returned offset is at most
  the bound plus one. A label that starts before the bound and lies within the buffer is
  read whole, also where it runs past the bound: it is added to the labels, and only then
  does resolution return.
\<close>

theorem parse_labels_bound_checked_per_label:
  "0 < max_i \<Longrightarrow>
   (max_i \<le> i \<longrightarrow>
      parse_labels_loop i max_i b allow_ptr results = Some (Inr (max_i + 1, results)))
   \<and> (parse_labels_loop i max_i b allow_ptr results = Some (Inr (j, ls)) \<longrightarrow> j \<le> max_i + 1)
   \<and> (0 \<le> i \<and> i < max_i \<and> i < int (length b)
        \<and> \<not> (allow_ptr \<and> (b ! nat i) AND 0xC0 = 0xC0) \<and> b ! nat i \<noteq> 0
        \<and> i + 1 + uint (b ! nat i) \<le> int (length b) \<and> max_i \<le> i + 1 + uint (b ! nat i) \<longrightarrow>
      parse_labels_loop i max_i b allow_ptr results
        = Some (Inr (max_i + 1, results @ [take (unat (b ! nat i)) (drop (nat i + 1) b)])))"
proof (intro conjI impI)
  assume pos: "0 < max_i"
  {
    assume "max_i \<le> i"
    with pos show "parse_labels_loop i max_i b allow_ptr results = Some (Inr (max_i + 1, results))"
      by (subst parse_labels_loop.simps) simp
  next
    assume "parse_labels_loop i max_i b allow_ptr results = Some (Inr (j, ls))"
    with pos parse_labels_loop_offset_bound [of i max_i b allow_ptr results "Inr (j, ls)"]
    show "j \<le> max_i + 1" by simp
  next
    assume h: "0 \<le> i \<and> i < max_i \<and> i < int (length b)
        \<and> \<not> (allow_ptr \<and> (b ! nat i) AND 0xC0 = 0xC0) \<and> b ! nat i \<noteq> 0
        \<and> i + 1 + uint (b ! nat i) \<le> int (length b) \<and> max_i \<le> i + 1 + uint (b ! nat i)"
    let ?l = "uint (b ! nat i)"
    let ?s = "take (unat (b ! nat i)) (drop (nat i + 1) b)"
    have nz: "?l \<noteq> 0" using h by (simp add: uint_0_iff)
    have sl: "slice b (i + 1) (i + 1 + ?l) = Inr ?s"
    proof -
      have "nat (uint (b ! nat i)) = unat (b ! nat i)" by simp
      moreover have "nat (i + 1) = nat i + 1" using h by linarith
      ultimately show ?thesis using h by (simp add: slice_def)
    qed
    have step: "parse_labels_loop i max_i b allow_ptr results
                = parse_labels_loop (i + 1 + ?l) max_i b allow_ptr (results @ [?s])"
      using h nz sl by (subst parse_labels_loop.simps) (auto simp: index_byte_def)
    have "parse_labels_loop (i + 1 + ?l) max_i b allow_ptr (results @ [?s])
          = Some (Inr (max_i + 1, results @ [?s]))"
      using pos h by (subst parse_labels_loop.simps) simp
    with step show "parse_labels_loop i max_i b allow_ptr results
        = Some (Inr (max_i + 1, results @ [take (unat (b ! nat i)) (drop (nat i + 1) b)]))"
      by simp
  }
qed

theorem parse_labels_bound_checked_per_label_witness:
  "(0::int) < 3
   \<and> parse_labels_loop 6 3 [5, 1, 2, 3, 4, 5, 0] False [[1, 2, 3, 4, 5]]
       = Some (Inr (4, [[1, 2, 3, 4, 5]]))
   \<and> parse_labels_loop 0 3 [5, 1, 2, 3, 4, 5, 0] False [] = Some (Inr (4, [[1, 2, 3, 4, 5]]))
   \<and> (4::int) \<le> 3 + 1"
proof -
  have pos: "(0::int) < 3" by simp
  note t6 = parse_labels_bound_checked_per_label
      [OF pos, of 6 "[5, 1, 2, 3, 4, 5, 0]" False "[[1, 2, 3, 4, 5]]" 4 "[[1, 2, 3, 4, 5]]"]
  note t0 = parse_labels_bound_checked_per_label
      [OF pos, of 0 "[5, 1, 2, 3, 4, 5, 0]" False "[]" 4 "[[1, 2, 3, 4, 5]]"]
  from t6 have a: "parse_labels_loop 6 3 [5, 1, 2, 3, 4, 5, 0] False [[1, 2, 3, 4, 5]]
       = Some (Inr (4, [[1, 2, 3, 4, 5]]))" by simp
  from t0 have b: "parse_labels_loop 0 3 [5, 1, 2, 3, 4, 5, 0] False []
       = Some (Inr (4, [[1, 2, 3, 4, 5]]))" by simp
  from t0 b have c: "(4::int) \<le> 3 + 1" by blast
  from pos a b c show ?thesis by blast
qed

text \<open>
  Claim C10: the target of every SRV record, the label sequence that starts 6 bytes into
  the rdata, is joined with a single space between labels, where the name of the record is
  joined with a dot.
\<close>

theorem SRV_target_space_joined:
  "DNSRR_FromBytes rr i b = Some (Inr (j, rr')) \<Longrightarrow> Type (RRHeader rr') = SRV \<Longrightarrow>
   \<exists>i0 l0 i1 h w n l priority weight port.
       parse_labels i (- 1) b True = Some (Inr (i0, l0))
     \<and> Name (RRHeader rr') = Join l0 dot
     \<and> DNSRRHeader_FromBytes (RRHeader rr) i b = Some (Inr (i1, h))
     \<and> read_u16 b (i1 + 4) = Inr w
     \<and> parse_labels (i1 + 6 + 6) (i1 + 6 + uint w) b True = Some (Inr (n, l))
     \<and> Payload rr' = DNSPayloadSrv priority weight port (Join l space)"
proof -
  assume dec: "DNSRR_FromBytes rr i b = Some (Inr (j, rr'))" and ty: "Type (RRHeader rr') = SRV"
  from dec obtain i1 h ttl w raw where
    hd: "DNSRRHeader_FromBytes (RRHeader rr) i b = Some (Inr (i1, h))" and
    w: "read_u16 b (i1 + 4) = Inr w" and
    sw: "payload_switch (rr\<lparr>RRHeader := h, TTL := ttl, raw_payload := raw\<rparr>) (i1 + 6) (uint w) b
           = Some (Inr rr')"
    unfolding DNSRR_FromBytes_Inr by blast
  from payload_switch_fields [OF sw] have h: "RRHeader rr' = h" by simp
  from hd obtain i0 l0 where l0: "parse_labels i (- 1) b True = Some (Inr (i0, l0))"
    and "Name h = Join l0 dot"
    unfolding DNSRRHeader_FromBytes_Inr by auto
  with h have nm: "Name (RRHeader rr') = Join l0 dot" by simp
  from h ty have "Type (RRHeader (rr\<lparr>RRHeader := h, TTL := ttl, raw_payload := raw\<rparr>)) = SRV"
    by simp
  from payload_switch_SRV [OF this sw]
  obtain n l priority weight port where
    "parse_labels (i1 + 6 + 6) (i1 + 6 + uint w) b True = Some (Inr (n, l))"
    "Payload rr' = DNSPayloadSrv priority weight port (Join l space)"
    by auto
  with l0 nm hd w show ?thesis by blast
qed

theorem SRV_target_space_joined_witness:
  "DNSRR_FromBytes DNSRR_zero 0
     [1,0x61,1,0x62,0, 0,33, 0,1, 0,0,0,120, 0,11, 0,1, 0,2, 0,80, 1,0x78,1,0x79,0]
   = Some (Inr (26, \<lparr>RRHeader = \<lparr>Name = [0x61, 0x2E, 0x62], Type = 33, Class = 1\<rparr>, TTL = 120,
        Payload = DNSPayloadSrv 1 2 80 [0x78, 0x20, 0x79],
        raw_payload = [0,1, 0,2, 0,80, 1,0x78,1,0x79,0]\<rparr>))
   \<and> (\<exists>l0 l priority weight port.
        [0x61, 0x2E, 0x62] = Join l0 dot
      \<and> DNSPayloadSrv 1 2 80 [0x78, 0x20, 0x79]
          = DNSPayloadSrv priority weight port (Join l space))"
proof -
  have e: "DNSRR_FromBytes DNSRR_zero 0
     [1,0x61,1,0x62,0, 0,33, 0,1, 0,0,0,120, 0,11, 0,1, 0,2, 0,80, 1,0x78,1,0x79,0]
   = Some (Inr (26, \<lparr>RRHeader = \<lparr>Name = [0x61, 0x2E, 0x62], Type = 33, Class = 1\<rparr>, TTL = 120,
        Payload = DNSPayloadSrv 1 2 80 [0x78, 0x20, 0x79],
        raw_payload = [0,1, 0,2, 0,80, 1,0x78,1,0x79,0]\<rparr>))"
    by code_simp
  have ty: "Type (RRHeader \<lparr>RRHeader = \<lparr>Name = [0x61, 0x2E, 0x62], Type = 33, Class = 1\<rparr>,
        TTL = 120, Payload = DNSPayloadSrv 1 2 80 [0x78, 0x20, 0x79],
        raw_payload = [0,1, 0,2, 0,80, 1,0x78,1,0x79,0]\<rparr>) = SRV"
    by (simp add: SRV_def)
  from SRV_target_space_joined [OF e ty] e show ?thesis
    by simp blast
qed

end
